theory Spec2Isabelle
  imports Complex_Main "HOL-Library.Log_Nat" "HOL-Library.Sublist"
begin

section \<open>Python values and exceptions\<close>

text \<open>
  The utilities of \<^verbatim>\<open>cstar/base/utils.py\<close> are modelled as total HOL functions.
  A Python \<^verbatim>\<open>int\<close> is an \<^typ>\<open>int\<close>, a \<^verbatim>\<open>float\<close> is the real number it denotes,
  a \<^verbatim>\<open>str\<close> is a \<^typ>\<open>string\<close> whose characters are the code points below 256, and
  every exception the source can raise is a value of \<open>py_error\<close>, returned on the left
  of a sum.
\<close>

datatype py_error =
    ZeroDivisionError
  | OverflowError
  | IndexError
  | TypeError
  | ValueError string
  | RuntimeError string

section \<open>Binary64 arithmetic\<close>

text \<open>
  Python's \<^verbatim>\<open>/\<close> on two ints is true division: it returns the double nearest to the
  exact quotient (ties to even). A finite double is represented by the rational
  number it denotes. \<open>floor_log2 x\<close> is the binade of a positive \<open>x\<close>, that is
  the \<open>k\<close> with \<open>2 powi k \<le> x < 2 powi (k + 1)\<close>.
\<close>

definition floor_log2 :: "real \<Rightarrow> int" where
  "floor_log2 x = (if 1 \<le> x then bitlen \<lfloor>x\<rfloor> - 1 else - bitlen (\<lceil>1 / x\<rceil> - 1))"

definition round_half_even :: "real \<Rightarrow> int" where
  "round_half_even y =
     (let f = \<lfloor>y\<rfloor>; r = y - of_int f
      in if r < 1 / 2 then f
         else if 1 / 2 < r then f + 1
         else if even f then f else f + 1)"

text \<open>
  Rounding to 53 significant bits, with the exponent of the last place never below
  \<open>-1074\<close> (the subnormal range). Overflow is checked by the callers.
\<close>

definition round_binary64 :: "real \<Rightarrow> real" where
  "round_binary64 x =
     (if x = 0 then 0
      else let e = max (floor_log2 \<bar>x\<bar> - 52) (- 1074)
           in sgn x * of_int (round_half_even (\<bar>x\<bar> / 2 powi e)) * 2 powi e)"

definition finite_binary64 :: "real \<Rightarrow> bool" where
  "finite_binary64 r = (\<bar>r\<bar> < 2 ^ 1024)"

text \<open>\<^verbatim>\<open>a / b\<close> for ints: ZeroDivisionError, or OverflowError when the quotient is too
  large for a float.\<close>

definition int_truediv :: "int \<Rightarrow> int \<Rightarrow> py_error + real" where
  "int_truediv a b =
     (if b = 0 then Inl ZeroDivisionError
      else let r = round_binary64 (of_int a / of_int b)
           in if finite_binary64 r then Inr r else Inl OverflowError)"

text \<open>The conversion of the int operand of a mixed \<^verbatim>\<open>int - float\<close>.\<close>

definition int_to_float :: "int \<Rightarrow> py_error + real" where
  "int_to_float a =
     (let r = round_binary64 (of_int a)
      in if finite_binary64 r then Inr r else Inl OverflowError)"

text \<open>
  Float subtraction. A difference beyond the finite range is infinite in Python, and
  the only consumer here, \<^verbatim>\<open>math.ceil\<close>, raises OverflowError on it; the two steps are
  one in the model.
\<close>

definition float_sub :: "real \<Rightarrow> real \<Rightarrow> py_error + real" where
  "float_sub x y =
     (let r = round_binary64 (x - y)
      in if finite_binary64 r then Inr r else Inl OverflowError)"

section \<open>Node distribution\<close>

text \<open>
  \<^verbatim>\<open>_calculate_node_distribution\<close>. The right operand of the subtraction is evaluated
  before the left one is converted to a float.
\<close>

definition calculate_node_distribution :: "int \<Rightarrow> int \<Rightarrow> py_error + (int \<times> int)" where
  "calculate_node_distribution n_cores_required tot_cores_per_node =
     (case int_truediv n_cores_required tot_cores_per_node of
        Inl err \<Rightarrow> Inl err
      | Inr q \<Rightarrow>
          let n_nodes_to_request = \<lceil>q\<rceil>
          in case int_truediv (n_nodes_to_request * tot_cores_per_node - n_cores_required)
                   n_nodes_to_request of
               Inl err \<Rightarrow> Inl err
             | Inr d \<Rightarrow>
                 (case int_to_float tot_cores_per_node of
                    Inl err \<Rightarrow> Inl err
                  | Inr t \<Rightarrow>
                      (case float_sub t d of
                         Inl err \<Rightarrow> Inl err
                       | Inr x \<Rightarrow> Inr (n_nodes_to_request, \<lceil>x\<rceil>))))"

section \<open>The specification's allocator\<close>

text \<open>
  The formula of the specification, read with exact division: the number of nodes is
  the quotient rounded up, and the cores per node are
  \<open>ceil(cores_per_node - ((nodes * cores_per_node) - cores_required) / nodes)\<close>.
\<close>

definition allocate_spec :: "int \<Rightarrow> int \<Rightarrow> int \<times> int" where
  "allocate_spec cores_required cores_per_node =
     (let nodes = \<lceil>(of_int cores_required :: real) / of_int cores_per_node\<rceil>
      in (nodes,
          \<lceil>(of_int cores_per_node :: real)
             - (of_int (nodes * cores_per_node) - of_int cores_required) / of_int nodes\<rceil>))"

section \<open>Strings\<close>

definition newline :: char where
  "newline = CHR 0x0A"

text \<open>The decimal text of an int, as \<^verbatim>\<open>str\<close> and the f-strings give it.\<close>

definition digit_char :: "nat \<Rightarrow> char" where
  "digit_char d = ''0123456789'' ! d"

function str_nat :: "nat \<Rightarrow> string" where
  "str_nat n = (if n < 10 then [digit_char n] else str_nat (n div 10) @ [digit_char (n mod 10)])"
  by pat_completeness auto
termination
  by (relation "measure id") auto

declare str_nat.simps [simp del]

definition str_int :: "int \<Rightarrow> string" where
  "str_int i = (if i < 0 then CHR ''-'' # str_nat (nat (- i)) else str_nat (nat i))"

text \<open>Indexing a list; a negative index counts from the end, an index out of range
  raises IndexError.\<close>

definition py_index :: "'a list \<Rightarrow> int \<Rightarrow> py_error + 'a" where
  "py_index xs i =
     (if 0 \<le> i \<and> i < int (length xs) then Inr (xs ! nat i)
      else if i < 0 \<and> - int (length xs) \<le> i then Inr (xs ! nat (int (length xs) + i))
      else Inl IndexError)"

text \<open>\<^verbatim>\<open>sep.join(items)\<close>.\<close>

fun py_join :: "string \<Rightarrow> string list \<Rightarrow> string" where
  "py_join sep [] = []"
| "py_join sep [x] = x"
| "py_join sep (x # y # ys) = x @ sep @ py_join sep (y # ys)"

text \<open>\<^verbatim>\<open>old in s\<close>: \<open>old\<close> starts at some position of \<open>s\<close>.\<close>

fun py_contains :: "string \<Rightarrow> string \<Rightarrow> bool" where
  "py_contains old [] = (old = [])"
| "py_contains old (c # cs) = (prefix old (c # cs) \<or> py_contains old cs)"

text \<open>
  \<^verbatim>\<open>s.replace(old, new)\<close>: the occurrences of \<open>old\<close> are taken from left to right without
  overlap; an empty \<open>old\<close> matches before every character and at the end.
\<close>

function replace_from :: "string \<Rightarrow> string \<Rightarrow> string \<Rightarrow> string" where
  "replace_from old new [] = []"
| "replace_from old new (c # cs) =
     (if old \<noteq> [] \<and> prefix old (c # cs)
      then new @ replace_from old new (drop (length old) (c # cs))
      else c # replace_from old new cs)"
  by pat_completeness auto
termination
  by (relation "measure (\<lambda>(old, new, s). length s)") auto

definition py_replace :: "string \<Rightarrow> string \<Rightarrow> string \<Rightarrow> string" where
  "py_replace old new s =
     (if old = [] then new @ concat (map (\<lambda>c. c # new) s) else replace_from old new s)"

text \<open>\<^verbatim>\<open>s.split()\<close>: the maximal runs of characters that are not whitespace. The
  whitespace code points below 256 are listed.\<close>

definition is_space :: "char \<Rightarrow> bool" where
  "is_space c = (of_char c \<in> {9, 10, 11, 12, 13, 28, 29, 30, 31, 32, 133, 160 :: nat})"

fun split_ws :: "string \<Rightarrow> string \<Rightarrow> string list" where
  "split_ws cur [] = (if cur = [] then [] else [cur])"
| "split_ws cur (c # cs) =
     (if is_space c then (if cur = [] then split_ws [] cs else cur # split_ws [] cs)
      else split_ws (cur @ [c]) cs)"

definition py_split :: "string \<Rightarrow> string list" where
  "py_split s = split_ws [] s"

text \<open>
  \<^verbatim>\<open>re.match(r"^[0-9a-f]{n}$", s)\<close>: \<open>n\<close> lowercase hexadecimal digits from the start
  of \<open>s\<close>, and then \<^verbatim>\<open>$\<close>, which matches at the end of the string and also just before
  a newline that ends the string.
\<close>

definition is_hex_digit :: "char \<Rightarrow> bool" where
  "is_hex_digit c = (c \<in> set ''0123456789abcdef'')"

definition re_match_hex :: "nat \<Rightarrow> string \<Rightarrow> bool" where
  "re_match_hex n s =
     (length (take n s) = n \<and> list_all is_hex_digit (take n s)
      \<and> (drop n s = [] \<or> drop n s = [newline]))"

section \<open>External commands\<close>

text \<open>
  \<^verbatim>\<open>subprocess.run(command, cwd=..., shell=True, capture_output=True, text=True)\<close>: the
  answer of the external tool to each invocation is a parameter \<open>shell\<close> of the model.
  The \<open>world\<close> records the invocations made and the lines printed.
\<close>

record completed_process =
  returncode :: int
  stdout :: string
  stderr :: string

record invocation =
  command :: string
  cwd :: "string option"

record world =
  invoked :: "invocation list"
  printed :: "string list"

definition clone_command :: "string \<Rightarrow> string \<Rightarrow> invocation" where
  "clone_command source_repo local_path =
     \<lparr>command = ''git clone '' @ source_repo @ '' '' @ local_path, cwd = None\<rparr>"

definition checkout_command :: "string \<Rightarrow> string \<Rightarrow> invocation" where
  "checkout_command local_path checkout_target =
     \<lparr>command = ''git checkout '' @ checkout_target, cwd = Some local_path\<rparr>"

definition clone_error :: "string \<Rightarrow> string \<Rightarrow> completed_process \<Rightarrow> py_error" where
  "clone_error source_repo local_path clone_result =
     RuntimeError (''Error '' @ str_int (returncode clone_result) @ '' when cloning repository ''
       @ source_repo @ '' to '' @ local_path @ ''. Error messages: ''
       @ [newline] @ stderr clone_result)"

definition checkout_error :: "string \<Rightarrow> string \<Rightarrow> completed_process \<Rightarrow> py_error" where
  "checkout_error local_path checkout_target checkout_result =
     RuntimeError (''Error '' @ str_int (returncode checkout_result) @ '' when checking out ''
       @ checkout_target @ '' in git repository '' @ local_path @ ''. Error messages: ''
       @ [newline] @ stderr checkout_result)"

text \<open>\<^verbatim>\<open>_clone_and_checkout\<close>.\<close>

definition clone_and_checkout ::
  "(invocation \<Rightarrow> completed_process) \<Rightarrow> string \<Rightarrow> string \<Rightarrow> string \<Rightarrow> world
     \<Rightarrow> (py_error + unit) \<times> world" where
  "clone_and_checkout shell source_repo local_path checkout_target w =
     (let clone_result = shell (clone_command source_repo local_path);
          w1 = w\<lparr>invoked := invoked w @ [clone_command source_repo local_path]\<rparr>
      in if returncode clone_result \<noteq> 0
         then (Inl (clone_error source_repo local_path clone_result), w1)
         else
           let w2 = w1\<lparr>printed := printed w1
                     @ [''Cloned repository '' @ source_repo @ '' to '' @ local_path]\<rparr>;
               checkout_result = shell (checkout_command local_path checkout_target);
               w3 = w2\<lparr>invoked := invoked w2 @ [checkout_command local_path checkout_target]\<rparr>
           in if returncode checkout_result \<noteq> 0
              then (Inl (checkout_error local_path checkout_target checkout_result), w3)
              else (Inr (),
                    w3\<lparr>printed := printed w3
                      @ [''Checked out '' @ checkout_target @ '' in git repository ''
                         @ local_path]\<rparr>))"

text \<open>\<^verbatim>\<open>_get_hash_from_checkout_target\<close>.\<close>

definition ls_remote_command :: "string \<Rightarrow> string \<Rightarrow> invocation" where
  "ls_remote_command repo_url checkout_target =
     \<lparr>command = ''git ls-remote '' @ repo_url @ '' '' @ checkout_target, cwd = None\<rparr>"

definition invalid_reference :: "string \<Rightarrow> string \<Rightarrow> py_error" where
  "invalid_reference repo_url checkout_target =
     ValueError (''supplied checkout_target ('' @ checkout_target @ '') does not appear ''
       @ ''to be a valid reference for this repository ('' @ repo_url @ '')'')"

definition get_hash_from_checkout_target ::
  "(invocation \<Rightarrow> completed_process) \<Rightarrow> string \<Rightarrow> string \<Rightarrow> py_error + string" where
  "get_hash_from_checkout_target shell repo_url checkout_target =
     (let is_potential_hash = (re_match_hex 7 checkout_target \<or> re_match_hex 40 checkout_target);
          ls_remote = stdout (shell (ls_remote_command repo_url checkout_target))
      in if length ls_remote = 0
         then (if is_potential_hash then Inr checkout_target
               else Inl (invalid_reference repo_url checkout_target))
         else py_index (py_split ls_remote) 0)"

section \<open>Text replacement in a file\<close>



section \<open>Concise listing\<close>

text \<open>
  The items of the list are Python values: a \<^verbatim>\<open>str\<close>, an \<^verbatim>\<open>int\<close>, or any other object,
  given by the two texts that \<^verbatim>\<open>repr\<close> and \<^verbatim>\<open>str\<close> return on it. \<open>repr\<close> on a \<^verbatim>\<open>str\<close> is
  Python's built-in, a parameter of the model.
\<close>

datatype py_value =
    PyStr string
  | PyInt int
  | PyObj string string

fun is_py_str :: "py_value \<Rightarrow> bool" where
  "is_py_str (PyStr s) = True"
| "is_py_str (PyInt i) = False"
| "is_py_str (PyObj r s) = False"

fun py_repr :: "(string \<Rightarrow> string) \<Rightarrow> py_value \<Rightarrow> string" where
  "py_repr repr (PyStr s) = repr s"
| "py_repr repr (PyInt i) = str_int i"
| "py_repr repr (PyObj r s) = r"

text \<open>The text that an f-string puts in the place of a value.\<close>

fun py_format :: "py_value \<Rightarrow> string" where
  "py_format (PyStr s) = s"
| "py_format (PyInt i) = str_int i"
| "py_format (PyObj r s) = s"

text \<open>\<^verbatim>\<open>sep.join(items)\<close> on values: TypeError unless every item is a \<^verbatim>\<open>str\<close>.\<close>

definition join_values :: "string \<Rightarrow> py_value list \<Rightarrow> py_error + string" where
  "join_values sep items =
     (if list_all is_py_str items then Inr (py_join sep (map py_format items))
      else Inl TypeError)"

text \<open>\<^verbatim>\<open>_list_to_concise_str\<close>.\<close>

definition list_to_concise_str ::
  "(string \<Rightarrow> string) \<Rightarrow> py_value list \<Rightarrow> int \<Rightarrow> int \<Rightarrow> bool \<Rightarrow> bool \<Rightarrow> py_error + string" where
  "list_to_concise_str repr input_list item_threshold pad items_are_strs show_item_count =
     (let pad_str = replicate (nat pad) CHR '' '';
          count_str = (if show_item_count
                       then ''<'' @ str_int (int (length input_list)) @ '' items>'' else []);
          shown = (\<lambda>item. if items_are_strs then PyStr (py_repr repr item) else item)
      in if int (length input_list) > item_threshold
         then (case py_index input_list 0 of
                 Inl err \<Rightarrow> Inl err
               | Inr item0 \<Rightarrow>
                   (case py_index input_list 1 of
                      Inl err \<Rightarrow> Inl err
                    | Inr item1 \<Rightarrow>
                        (case py_index input_list (- 1) of
                           Inl err \<Rightarrow> Inl err
                         | Inr item_last \<Rightarrow>
                             Inr (''['' @ py_format (shown item0) @ '',''
                                  @ [newline] @ pad_str @ py_format (shown item1) @ '',''
                                  @ [newline] @ pad_str @ ''   ...''
                                  @ [newline] @ pad_str @ py_format (shown item_last)
                                  @ ''] '' @ count_str))))
         else (case join_values ('','' @ [newline] @ pad_str) (map shown input_list) of
                 Inl err \<Rightarrow> Inl err
               | Inr joined \<Rightarrow> Inr (''['' @ joined @ '']'')))"

text \<open>A simple stand-in for \<^verbatim>\<open>repr\<close>, right on strings without quotes, backslashes or
  control characters.\<close>

definition quote_repr :: "string \<Rightarrow> string" where
  "quote_repr s = [CHR 0x27] @ s @ [CHR 0x27]"

section \<open>Auxiliary notions of the statements\<close>

text \<open>Predicates in which the properties of the reference lookup are stated, and the
  tool answers on which they are instantiated.\<close>

definition is_value_error :: "py_error + 'a \<Rightarrow> bool" where
  "is_value_error r = (case r of Inl (ValueError msg) \<Rightarrow> True | _ \<Rightarrow> False)"

definition is_hex_hash :: "string \<Rightarrow> bool" where
  "is_hex_hash s = ((length s = 7 \<or> length s = 40) \<and> list_all is_hex_digit s)"

definition ends_with_newline :: "string \<Rightarrow> bool" where
  "ends_with_newline s = (s \<noteq> [] \<and> last s = newline)"

definition first_token :: "string \<Rightarrow> string" where
  "first_token s = takeWhile (\<lambda>c. \<not> is_space c) (dropWhile is_space s)"

definition no_remote :: "invocation \<Rightarrow> completed_process" where
  "no_remote call = \<lparr>returncode = 0, stdout = [], stderr = []\<rparr>"

definition blank_remote :: "invocation \<Rightarrow> completed_process" where
  "blank_remote call = \<lparr>returncode = 0, stdout = '' '', stderr = []\<rparr>"

definition main_remote :: "invocation \<Rightarrow> completed_process" where
  "main_remote call =
     \<lparr>returncode = 0, stdout = ''12ab'' @ [CHR 0x09] @ ''refs/heads/main'' @ [newline], stderr = []\<rparr>"

definition failing_clone :: "invocation \<Rightarrow> completed_process" where
  "failing_clone call = \<lparr>returncode = 128, stdout = [], stderr = ''fatal''\<rparr>"

definition failing_checkout :: "invocation \<Rightarrow> completed_process" where
  "failing_checkout call =
     (if cwd call = None then \<lparr>returncode = 0, stdout = [], stderr = []\<rparr>
      else \<lparr>returncode = 1, stdout = [], stderr = ''error''\<rparr>)"

section \<open>Properties of binary64 rounding\<close>

lemma two_powi_nat: "0 \<le> k \<Longrightarrow> (2::real) powi k = 2 ^ nat k"
  by (simp add: power_int_def)

lemma two_powi_neg: "0 \<le> k \<Longrightarrow> (2::real) powi (- k) = 1 / 2 ^ nat k"
  by (simp add: power_int_minus two_powi_nat divide_inverse)

lemma floor_log2_bounds:
  assumes "0 < x"
  shows "2 powi (floor_log2 x) \<le> x \<and> x < 2 powi (floor_log2 x + 1)"
proof (cases "1 \<le> x")
  case True
  define m where "m = \<lfloor>x\<rfloor>"
  have m1: "1 \<le> m" using True by (simp add: m_def le_floor_iff)
  then have bl: "2 ^ nat (bitlen m - 1) \<le> m" "m < 2 ^ nat (bitlen m)"
    using bitlen_bounds [of m] by simp_all
  have bl1: "1 \<le> bitlen m" using m1 by (simp add: bitlen_alt_def)
  have k: "floor_log2 x = bitlen m - 1" using True by (simp add: floor_log2_def m_def)
  have "(2::real) ^ nat (bitlen m - 1) \<le> of_int m"
    using bl(1) by (metis of_int_le_iff of_int_numeral of_int_power)
  also have "\<dots> \<le> x" by (simp add: m_def)
  finally have lo: "2 powi (floor_log2 x) \<le> x" using bl1 by (simp add: k two_powi_nat)
  have "m + 1 \<le> 2 ^ nat (bitlen m)" using bl(2) by simp
  then have "(of_int (m + 1) :: real) \<le> 2 ^ nat (bitlen m)"
    by (metis of_int_le_iff of_int_numeral of_int_power)
  moreover have "x < of_int (m + 1)" unfolding m_def by linarith
  ultimately have "x < 2 ^ nat (bitlen m)" by linarith
  then have hi: "x < 2 powi (floor_log2 x + 1)" using bl1 by (simp add: k two_powi_nat)
  from lo hi show ?thesis ..
next
  case False
  then have x1: "x < 1" by simp
  define y where "y = 1 / x"
  have y1: "1 < y" using assms x1 by (simp add: y_def)
  define m where "m = \<lceil>y\<rceil>"
  have m2: "2 \<le> m" using y1 unfolding m_def by linarith
  define j where "j = bitlen (m - 1)"
  have bl: "2 ^ nat (j - 1) \<le> m - 1" "m - 1 < 2 ^ nat j"
    using bitlen_bounds [of "m - 1"] m2 by (simp_all add: j_def)
  have j1: "1 \<le> j" using m2 by (simp add: j_def bitlen_alt_def)
  have k: "floor_log2 x = - j" using False by (simp add: floor_log2_def m_def j_def y_def)
  have "m \<le> 2 ^ nat j" using bl(2) by simp
  then have "(of_int m :: real) \<le> 2 ^ nat j"
    by (metis of_int_le_iff of_int_numeral of_int_power)
  moreover have "y \<le> of_int m" by (simp add: m_def)
  ultimately have yle: "y \<le> 2 ^ nat j" by linarith
  have "(2::real) ^ nat (j - 1) \<le> of_int (m - 1)"
    using bl(1) by (metis of_int_le_iff of_int_numeral of_int_power)
  moreover have "of_int (m - 1) < y" unfolding m_def by linarith
  ultimately have ygt: "2 ^ nat (j - 1) < y" by linarith
  have xy: "x = 1 / y" using assms by (simp add: y_def)
  have "1 / 2 ^ nat j \<le> 1 / y" using yle y1 by (simp add: frac_le)
  moreover have "2 powi (floor_log2 x) = 1 / (2::real) ^ nat j"
    using j1 two_powi_neg [of j] by (simp add: k)
  ultimately have lo: "2 powi (floor_log2 x) \<le> x" using xy by simp
  have "1 / y < 1 / 2 ^ nat (j - 1)" using ygt by (simp add: frac_less2)
  moreover have "2 powi (floor_log2 x + 1) = 1 / (2::real) ^ nat (j - 1)"
    using two_powi_neg [of "j - 1"] j1 by (simp add: k)
  ultimately have hi: "x < 2 powi (floor_log2 x + 1)" using xy by simp
  from lo hi show ?thesis ..
qed

lemma floor_log2_eq:
  assumes "2 powi k \<le> x" and "x < 2 powi (k + 1)"
  shows "floor_log2 x = k"
proof -
  have pos: "0 < x" using assms(1) zero_less_power_int [of "2::real" k] by linarith
  note b = floor_log2_bounds [OF pos]
  have "\<not> floor_log2 x < k"
  proof
    assume "floor_log2 x < k"
    then have "(2::real) powi (floor_log2 x + 1) \<le> 2 powi k"
      by (intro power_int_increasing) simp_all
    with b assms show False by linarith
  qed
  moreover have "\<not> k < floor_log2 x"
  proof
    assume "k < floor_log2 x"
    then have "(2::real) powi (k + 1) \<le> 2 powi floor_log2 x"
      by (intro power_int_increasing) simp_all
    with b assms show False by linarith
  qed
  ultimately show ?thesis by simp
qed

lemma round_half_even_floor_le: "\<lfloor>y\<rfloor> \<le> round_half_even y"
  by (simp add: round_half_even_def Let_def)

lemma round_half_even_le_floor: "round_half_even y \<le> \<lfloor>y\<rfloor> + 1"
  by (simp add: round_half_even_def Let_def)

lemma round_half_even_of_int [simp]: "round_half_even (of_int m) = m"
  by (simp add: round_half_even_def Let_def)

lemma round_half_even_ge: "of_int a \<le> y \<Longrightarrow> a \<le> round_half_even y"
  using round_half_even_floor_le [of y] by (meson le_floor_iff order_trans)

lemma round_half_even_le:
  assumes "y \<le> of_int b"
  shows "round_half_even y \<le> b"
proof (cases "y = of_int b")
  case True
  then show ?thesis by simp
next
  case False
  with assms have "y < of_int b" by simp
  then have "\<lfloor>y\<rfloor> < b" by (simp add: floor_less_iff)
  with round_half_even_le_floor [of y] show ?thesis by simp
qed

lemma round_binary64_pos:
  assumes "0 < x"
  shows "round_binary64 x =
    of_int (round_half_even (x / 2 powi (max (floor_log2 x - 52) (- 1074))))
      * 2 powi (max (floor_log2 x - 52) (- 1074))"
  using assms by (simp add: round_binary64_def Let_def)

lemma round_binary64_binade:
  assumes "2 powi k \<le> x" and "x < 2 powi (k + 1)"
  shows "round_binary64 x =
    of_int (round_half_even (x / 2 powi (max (k - 52) (- 1074)))) * 2 powi (max (k - 52) (- 1074))"
proof -
  have "0 < x" using assms(1) zero_less_power_int [of "2::real" k] by linarith
  then show ?thesis using floor_log2_eq [OF assms] by (simp add: round_binary64_pos)
qed

lemma grid_lower:
  assumes "0 < s" and "of_int t * s \<le> x"
  shows "of_int t * s \<le> of_int (round_half_even (x / s)) * s"
proof -
  have "of_int t \<le> x / s" using assms by (simp add: pos_le_divide_eq)
  then have "t \<le> round_half_even (x / s)" by (rule round_half_even_ge)
  then have "(of_int t :: real) \<le> of_int (round_half_even (x / s))" by simp
  then show ?thesis using assms(1) by (simp add: mult_right_mono)
qed

lemma grid_upper:
  assumes "0 < s" and "x \<le> of_int t * s"
  shows "of_int (round_half_even (x / s)) * s \<le> of_int t * s"
proof -
  have "x / s \<le> of_int t" using assms by (simp add: pos_divide_le_eq)
  then have "round_half_even (x / s) \<le> t" by (rule round_half_even_le)
  then have "(of_int (round_half_even (x / s)) :: real) \<le> of_int t" by simp
  then show ?thesis using assms(1) by (simp add: mult_right_mono)
qed

lemma two_powi_split: "e \<le> ea \<Longrightarrow> (2::real) powi ea = of_int (2 ^ nat (ea - e)) * 2 powi e"
proof -
  assume "e \<le> ea"
  have "(2::real) powi ea = 2 powi ((ea - e) + e)" by simp
  also have "\<dots> = 2 powi (ea - e) * 2 powi e" by (rule power_int_add) simp
  also have "2 powi (ea - e) = (2::real) ^ nat (ea - e)" using \<open>e \<le> ea\<close> by (simp add: power_int_def)
  finally show ?thesis by simp
qed

lemma round_binary64_lower:
  assumes x: "0 < x" and m: "0 \<le> m" "m \<le> 2 ^ 53" and ea: "- 1074 \<le> ea"
    and le: "of_int m * 2 powi ea \<le> x"
  shows "of_int m * 2 powi ea \<le> round_binary64 x"
proof -
  define k where "k = floor_log2 x"
  define e where "e = max (k - 52) (- 1074)"
  define s where "s = (2::real) powi e"
  have s: "0 < s" by (simp add: s_def)
  have rb: "round_binary64 x = of_int (round_half_even (x / s)) * s"
    using round_binary64_pos [OF x] by (simp add: k_def e_def s_def)
  have kb: "2 powi k \<le> x" using floor_log2_bounds [OF x] by (simp add: k_def)
  show ?thesis
  proof (cases "e \<le> ea")
    case True
    have "of_int m * 2 powi ea = of_int (m * 2 ^ nat (ea - e)) * s"
      using two_powi_split [OF True] by (simp add: s_def)
    moreover have "of_int (m * 2 ^ nat (ea - e)) * s \<le> of_int (round_half_even (x / s)) * s"
      using le two_powi_split [OF True] by (intro grid_lower [OF s]) (simp add: s_def)
    ultimately show ?thesis unfolding rb by linarith
  next
    case False
    then have ek: "e = k - 52" and eak: "ea + 53 \<le> k" using ea by (simp_all add: e_def)
    have "(of_int m :: real) \<le> of_int (2 ^ 53)" using m(2) by (simp only: of_int_le_iff)
    then have "of_int m * 2 powi ea \<le> (2::real) ^ 53 * 2 powi ea"
      by (intro mult_right_mono) simp_all
    also have "\<dots> = 2 powi (53 + ea)" by (subst power_int_add) simp_all
    also have "\<dots> \<le> 2 powi k" using eak by (intro power_int_increasing) simp_all
    finally have a: "of_int m * 2 powi ea \<le> (2::real) powi k" .
    have pk: "(2::real) powi k = of_int (2 ^ 52) * s"
      using two_powi_split [of e k] by (simp add: ek s_def)
    have "of_int (2 ^ 52) * s \<le> of_int (round_half_even (x / s)) * s"
      using kb pk by (intro grid_lower [OF s]) simp
    with a pk show ?thesis by (simp add: rb)
  qed
qed

lemma round_binary64_upper:
  assumes x: "0 < x" and m: "0 \<le> m" "m \<le> 2 ^ 53" and eb: "- 1074 \<le> eb"
    and le: "x \<le> of_int m * 2 powi eb"
  shows "round_binary64 x \<le> of_int m * 2 powi eb"
proof -
  define k where "k = floor_log2 x"
  define e where "e = max (k - 52) (- 1074)"
  define s where "s = (2::real) powi e"
  have s: "0 < s" by (simp add: s_def)
  have rb: "round_binary64 x = of_int (round_half_even (x / s)) * s"
    using round_binary64_pos [OF x] by (simp add: k_def e_def s_def)
  have kb: "2 powi k \<le> x" using floor_log2_bounds [OF x] by (simp add: k_def)
  show ?thesis
  proof (cases "e \<le> eb")
    case True
    have "of_int m * 2 powi eb = of_int (m * 2 ^ nat (eb - e)) * s"
      using two_powi_split [OF True] by (simp add: s_def)
    moreover have "of_int (round_half_even (x / s)) * s \<le> of_int (m * 2 ^ nat (eb - e)) * s"
      using le two_powi_split [OF True] by (intro grid_upper [OF s]) (simp add: s_def)
    ultimately show ?thesis unfolding rb by linarith
  next
    case False
    then have ek: "e = k - 52" and ebk: "eb + 53 \<le> k" using eb by (simp_all add: e_def)
    have "(of_int m :: real) \<le> of_int (2 ^ 53)" using m(2) by (simp only: of_int_le_iff)
    then have "of_int m * 2 powi eb \<le> (2::real) ^ 53 * 2 powi eb"
      by (intro mult_right_mono) simp_all
    also have "\<dots> = 2 powi (53 + eb)" by (subst power_int_add) simp_all
    also have "\<dots> \<le> 2 powi k" using ebk by (intro power_int_increasing) simp_all
    finally have b: "of_int m * 2 powi eb \<le> (2::real) powi k" .
    have pk: "(2::real) powi k = of_int (2 ^ 52) * s"
      using two_powi_split [of e k] by (simp add: ek s_def)
    from b kb le have xeq: "x = of_int (2 ^ 52) * s" and beq: "of_int m * 2 powi eb = of_int (2 ^ 52) * s"
      using pk by simp_all
    have "of_int (round_half_even (x / s)) * s \<le> of_int (2 ^ 52) * s"
      using xeq by (intro grid_upper [OF s]) simp
    with beq show ?thesis by (simp add: rb)
  qed
qed

lemma round_binary64_exact:
  assumes "0 \<le> m" "m \<le> 2 ^ 53" "- 1074 \<le> e"
  shows "round_binary64 (of_int m * 2 powi e) = of_int m * 2 powi e"
proof (cases "m = 0")
  case True
  then show ?thesis by (simp add: round_binary64_def)
next
  case False
  with assms have "0 < of_int m * (2::real) powi e" by simp
  from round_binary64_lower [OF this assms] round_binary64_upper [OF this assms]
  show ?thesis by simp
qed

lemma dyadic_plus: "of_int f + 1 / 2 ^ j = of_int (f * 2 ^ j + 1) * (2::real) powi (- int j)"
  by (simp add: power_int_minus field_simps)

lemma dyadic_minus: "of_int p - 1 / 2 ^ j = of_int (p * 2 ^ j - 1) * (2::real) powi (- int j)"
  by (simp add: power_int_minus field_simps)

lemma two_power_ge_one_int: "(1::int) \<le> 2 ^ j"
  by simp

text \<open>A value strictly between two neighbouring integers, and a dyadic step away from both,
  keeps its ceiling when rounded.\<close>

lemma round_binary64_between:
  assumes lo: "of_int p - 1 + 1 / 2 ^ j \<le> y" and hi: "y \<le> of_int p - 1 / 2 ^ j"
    and p: "1 \<le> p" "p * 2 ^ j \<le> 2 ^ 53" and j: "j \<le> 1074"
  shows "of_int p - 1 + 1 / 2 ^ j \<le> round_binary64 y \<and> round_binary64 y \<le> of_int p - 1 / 2 ^ j"
proof -
  have y: "0 < y"
  proof -
    have "(0::real) < 1 / 2 ^ j" by simp
    moreover have "(0::real) \<le> of_int p - 1" using p(1) by simp
    ultimately show ?thesis using lo by linarith
  qed
  have j': "- 1074 \<le> - int j" using j by simp
  have pj: "1 \<le> p * 2 ^ j" using p(1) two_power_ge_one_int [of j]
    by (metis mult_1 mult_mono zero_le_one order_trans)
  have l: "of_int p - 1 + 1 / 2 ^ j = of_int ((p - 1) * 2 ^ j + 1) * (2::real) powi (- int j)"
    using dyadic_plus [of "p - 1" j] by simp
  have m1: "0 \<le> (p - 1) * 2 ^ j + 1" using p(1) by simp
  have "(p - 1) * 2 ^ j + 1 \<le> p * 2 ^ j" using two_power_ge_one_int [of j] by (simp add: algebra_simps)
  then have m2: "(p - 1) * 2 ^ j + 1 \<le> 2 ^ 53" using p(2) by linarith
  have "of_int ((p - 1) * 2 ^ j + 1) * (2::real) powi (- int j) \<le> round_binary64 y"
    using lo unfolding l by (intro round_binary64_lower [OF y m1 m2 j'])
  then have A: "of_int p - 1 + 1 / 2 ^ j \<le> round_binary64 y" unfolding l .
  have u: "of_int p - 1 / 2 ^ j = of_int (p * 2 ^ j - 1) * (2::real) powi (- int j)"
    by (rule dyadic_minus)
  have n1: "0 \<le> p * 2 ^ j - 1" using pj by simp
  have n2: "p * 2 ^ j - 1 \<le> 2 ^ 53" using p(2) by simp
  have "round_binary64 y \<le> of_int (p * 2 ^ j - 1) * (2::real) powi (- int j)"
    using hi unfolding u by (intro round_binary64_upper [OF y n1 n2 j'])
  then have B: "round_binary64 y \<le> of_int p - 1 / 2 ^ j" unfolding u .
  from A B show ?thesis ..
qed

lemma ceiling_between:
  assumes "of_int p - 1 + 1 / 2 ^ j \<le> (r::real)" and "r \<le> of_int p - 1 / 2 ^ j"
  shows "\<lceil>r\<rceil> = p"
proof -
  have "(0::real) < 1 / 2 ^ j" by simp
  with assms have "of_int p - 1 < r" "r \<le> of_int p" by linarith+
  then show ?thesis by (simp add: ceiling_unique)
qed

lemma quotient_bounds:
  assumes b: "0 < b" and nd: "\<not> b dvd a" and bj: "b \<le> 2 ^ j"
  shows "of_int (a div b + 1) - 1 + 1 / 2 ^ j \<le> (of_int a / of_int b :: real)"
    and "(of_int a / of_int b :: real) \<le> of_int (a div b + 1) - 1 / 2 ^ j"
proof -
  define r where "r = a mod b"
  have "r \<noteq> 0" using nd by (simp add: r_def dvd_eq_mod_eq_0)
  moreover have "0 \<le> r" "r < b" using b by (simp_all add: r_def)
  ultimately have r: "1 \<le> r" "r \<le> b - 1" by linarith+
  have a: "a = b * (a div b) + r" by (simp add: r_def)
  have br: "(0::real) < of_int b" using b by simp
  have "(of_int a :: real) = of_int b * of_int (a div b) + of_int r"
    by (metis a of_int_add of_int_mult)
  then have q: "(of_int a / of_int b :: real) = of_int (a div b) + of_int r / of_int b"
    using br by (simp add: field_simps)
  have "(of_int b :: real) \<le> 2 ^ j" using bj by (metis of_int_le_iff of_int_numeral of_int_power)
  then have inv: "1 / 2 ^ j \<le> 1 / (of_int b :: real)" using br by (simp add: frac_le)
  have "1 / (of_int b :: real) \<le> of_int r / of_int b"
    using r(1) br by (simp add: divide_right_mono)
  with inv q show "of_int (a div b + 1) - 1 + 1 / 2 ^ j \<le> (of_int a / of_int b :: real)" by simp
  have "(of_int r :: real) \<le> of_int b - 1" using r(2) by (metis of_int_le_iff of_int_diff of_int_1)
  then have "of_int r / (of_int b :: real) \<le> (of_int b - 1) / of_int b"
    using br by (simp add: divide_right_mono)
  also have "\<dots> = 1 - 1 / of_int b" using br by (simp add: field_simps)
  finally have "of_int r / (of_int b :: real) \<le> 1 - 1 / 2 ^ j" using inv by linarith
  with q show "(of_int a / of_int b :: real) \<le> of_int (a div b + 1) - 1 / 2 ^ j" by simp
qed

lemma finite_binary64_small:
  assumes "0 \<le> r" and "r \<le> 2 ^ 53"
  shows "finite_binary64 r"
proof -
  have "(2::real) ^ 53 < 2 ^ 1024" by (rule power_strict_increasing) simp_all
  with assms show ?thesis by (simp add: finite_binary64_def)
qed

lemma round_binary64_of_int:
  assumes "0 \<le> m" and "m \<le> 2 ^ 53"
  shows "round_binary64 (of_int m) = of_int m"
  using round_binary64_exact [OF assms, of 0] by simp

lemma of_int_le_two_power: "m \<le> 2 ^ k \<Longrightarrow> (of_int m :: real) \<le> 2 ^ k"
  by (metis of_int_le_iff of_int_numeral of_int_power)

lemma int_truediv_exact:
  assumes a: "0 \<le> a" and b: "0 < b" and dv: "b dvd a" and bound: "a div b \<le> 2 ^ 53"
  shows "int_truediv a b = Inr (of_int (a div b))"
proof -
  have "(of_int a / of_int b :: real) = of_int (a div b)"
    using dv b by (simp add: real_of_int_div)
  moreover have "0 \<le> a div b" using a b by (simp add: pos_imp_zdiv_nonneg_iff)
  ultimately show ?thesis
    using b bound round_binary64_of_int [of "a div b"]
      finite_binary64_small [of "of_int (a div b)"] of_int_le_two_power [of "a div b" 53]
    by (simp add: int_truediv_def Let_def)
qed

lemma int_truediv_inexact:
  assumes a: "0 \<le> a" and b: "0 < b" and nd: "\<not> b dvd a" and bj: "b \<le> 2 ^ j"
    and bound: "(a div b + 1) * 2 ^ j \<le> 2 ^ 53" and j: "j \<le> 1074"
  shows "\<exists>q. int_truediv a b = Inr q
    \<and> of_int (a div b + 1) - 1 + 1 / 2 ^ j \<le> q \<and> q \<le> of_int (a div b + 1) - 1 / 2 ^ j"
proof -
  define p where "p = a div b + 1"
  define q where "q = round_binary64 (of_int a / of_int b)"
  have p1: "1 \<le> p" using a b by (simp add: p_def pos_imp_zdiv_nonneg_iff)
  have q: "of_int p - 1 + 1 / 2 ^ j \<le> q \<and> q \<le> of_int p - 1 / 2 ^ j"
    unfolding q_def p_def
    using quotient_bounds [OF b nd bj] p1 bound j
    by (intro round_binary64_between) (simp_all add: p_def)
  have "(0::real) < 1 / 2 ^ j" by simp
  with q p1 have q0: "0 \<le> q" and qp: "q \<le> of_int p" by linarith+
  have "p \<le> p * 2 ^ j" using p1 two_power_ge_one_int [of j] by (metis mult.right_neutral mult_left_mono order_trans zero_le_one)
  with bound have "p \<le> 2 ^ 53" by (simp add: p_def)
  then have "q \<le> 2 ^ 53" using qp of_int_le_two_power [of p 53] by linarith
  then have "finite_binary64 q" using q0 by (rule finite_binary64_small [rotated])
  then have "int_truediv a b = Inr q" using b by (simp add: int_truediv_def Let_def q_def)
  with q show ?thesis by (auto simp: p_def)
qed

lemma int_to_float_exact:
  assumes "0 \<le> m" and "m \<le> 2 ^ 53"
  shows "int_to_float m = Inr (of_int m)"
  using assms round_binary64_of_int [OF assms] finite_binary64_small [of "of_int m"]
    of_int_le_two_power [of m 53]
  by (simp add: int_to_float_def Let_def)

lemma float_sub_exact:
  assumes "0 \<le> m" and "m \<le> 2 ^ 53" and "x - y = of_int m"
  shows "float_sub x y = Inr (of_int m)"
  using assms round_binary64_of_int [of m] finite_binary64_small [of "of_int m"]
    of_int_le_two_power [of m 53]
  by (simp add: float_sub_def Let_def)

lemma float_sub_inexact:
  assumes lo: "of_int p - 1 + 1 / 2 ^ j \<le> x - y" and hi: "x - y \<le> of_int p - 1 / 2 ^ j"
    and p: "1 \<le> p" "p * 2 ^ j \<le> 2 ^ 53" and j: "j \<le> 1074"
  shows "\<exists>r. float_sub x y = Inr r \<and> \<lceil>r\<rceil> = p"
proof -
  define r where "r = round_binary64 (x - y)"
  have r: "of_int p - 1 + 1 / 2 ^ j \<le> r \<and> r \<le> of_int p - 1 / 2 ^ j"
    unfolding r_def using assms by (intro round_binary64_between)
  then have c: "\<lceil>r\<rceil> = p" using ceiling_between by blast
  have "(0::real) < 1 / 2 ^ j" by simp
  with r p(1) have r0: "0 \<le> r" and rp: "r \<le> of_int p" by linarith+
  have "p \<le> p * 2 ^ j" using p(1) two_power_ge_one_int [of j] by (metis mult.right_neutral mult_left_mono order_trans zero_le_one)
  with p(2) have "p \<le> 2 ^ 53" by simp
  then have "r \<le> 2 ^ 53" using rp of_int_le_two_power [of p 53] by linarith
  then have "finite_binary64 r" using r0 by (rule finite_binary64_small [rotated])
  then have "float_sub x y = Inr r" by (simp add: float_sub_def Let_def r_def)
  with c show ?thesis by blast
qed

lemma int_div_le_self: "0 \<le> a \<Longrightarrow> 0 < b \<Longrightarrow> a div b \<le> (a::int)"
  using zdiv_mono2 [of a 1 b] by simp

lemma ceil_div_facts:
  assumes c: "0 < c" and n: "0 < (n::int)"
  defines "N \<equiv> (if n dvd c then c div n else c div n + 1)"
  shows "1 \<le> N" and "N \<le> c" and "c \<le> N * n" and "N * n - c < n"
proof -
  have dm: "c = n * (c div n) + c mod n" by simp
  have m: "0 \<le> c mod n" "c mod n < n" using n by simp_all
  have q0: "0 \<le> c div n" using c n by (simp add: pos_imp_zdiv_nonneg_iff)
  show "1 \<le> N"
  proof (cases "n dvd c")
    case True
    then obtain k where k: "c = n * k" by (auto simp: dvd_def)
    with c n have "0 < k" by (simp add: zero_less_mult_iff)
    with k n True show ?thesis by (simp add: N_def)
  next
    case False
    with q0 show ?thesis by (simp add: N_def)
  qed
  show "N \<le> c"
  proof (cases "n dvd c")
    case True
    then show ?thesis using int_div_le_self [of c n] c n by (simp add: N_def)
  next
    case False
    then have "n \<noteq> 1" by auto
    with n have n2: "2 \<le> n" by simp
    have "c mod n \<noteq> 0" using False by (simp add: dvd_eq_mod_eq_0)
    with m have m1: "1 \<le> c mod n" by simp
    have "2 * (c div n) \<le> n * (c div n)" using n2 q0 by (intro mult_right_mono) simp_all
    with dm m1 have "2 * (c div n) + 1 \<le> c" by linarith
    with q0 False show ?thesis by (simp add: N_def)
  qed
  show "c \<le> N * n"
  proof (cases "n dvd c")
    case True
    then show ?thesis by (simp add: N_def)
  next
    case False
    have "c \<le> n * (c div n) + n" using dm m by linarith
    with False show ?thesis by (simp add: N_def algebra_simps)
  qed
  show "N * n - c < n"
  proof (cases "n dvd c")
    case True
    then show ?thesis using n by (simp add: N_def)
  next
    case False
    then have "c mod n \<noteq> 0" by (simp add: dvd_eq_mod_eq_0)
    with m have m1: "1 \<le> c mod n" by simp
    have "N * n = n * (c div n) + n" using False by (simp add: N_def algebra_simps)
    with dm m1 show ?thesis by linarith
  qed
qed

lemma power_two_cover:
  assumes "1 \<le> (n::int)"
  shows "\<exists>j. n \<le> 2 ^ j \<and> 2 ^ j < 2 * n"
proof (cases "n = 1")
  case True
  then have "n \<le> 2 ^ 0 \<and> 2 ^ 0 < 2 * n" by simp
  then show ?thesis by blast
next
  case False
  with assms have pos: "0 < n - 1" by simp
  define b where "b = bitlen (n - 1)"
  have b1: "1 \<le> b" using pos by (simp add: b_def bitlen_alt_def)
  have bl: "2 ^ nat (b - 1) \<le> n - 1" "n - 1 < 2 ^ nat b"
    using bitlen_bounds [OF pos] by (simp_all add: b_def)
  have "nat b = Suc (nat (b - 1))" using b1 by simp
  then have "(2::int) ^ nat b = 2 * 2 ^ nat (b - 1)" by simp
  with bl have "n \<le> 2 ^ nat b \<and> 2 ^ nat b < 2 * n" by linarith
  then show ?thesis by blast
qed

lemma exponent_small:
  assumes "(2::int) ^ j \<le> 2 ^ 53"
  shows "j \<le> 1074"
proof -
  have "j \<le> 53" by (rule power_le_imp_le_exp [of "2::int"]) (simp, rule assms)
  then show ?thesis by simp
qed

lemma calculate_node_distribution_exact:
  assumes c: "0 < c" "c \<le> 2 ^ 51" and n: "0 < n" "n \<le> 2 ^ 51"
  defines "N \<equiv> (if n dvd c then c div n else c div n + 1)"
  shows "calculate_node_distribution c n = Inr (N, n - (N * n - c) div N)"
proof -
  define d where "d = N * n - c"
  note facts = ceil_div_facts [OF c(1) n(1), folded N_def]
  have N1: "1 \<le> N" and Nc: "N \<le> c" and d0: "0 \<le> d" and dn: "d < n"
    using facts by (simp_all add: d_def)
  have q0: "0 \<le> c div n" using c n by (simp add: pos_imp_zdiv_nonneg_iff)
  have qc: "c div n \<le> c" using int_div_le_self [of c n] c n by simp
  have cn: "c + n \<le> 2 ^ 52" using c(2) n(2) by simp
  \<comment> \<open>the first division\<close>
  have s1: "\<exists>q. int_truediv c n = Inr q \<and> \<lceil>q\<rceil> = N"
  proof (cases "n dvd c")
    case True
    have "c div n \<le> 2 ^ 53" using qc c(2) by simp
    then have "int_truediv c n = Inr (of_int (c div n))"
      using c n True by (intro int_truediv_exact) simp_all
    then show ?thesis using True by (simp add: N_def)
  next
    case False
    from power_two_cover [of n] n(1) obtain j where j: "n \<le> 2 ^ j" "2 ^ j < 2 * n" by auto
    have "n * (c div n) \<le> c" using n(1) by (metis mult.commute div_mult_mod_eq pos_mod_sign le_add_same_cancel1)
    then have t0: "(c div n + 1) * (2 * n) \<le> 2 * (c + n)" by (simp add: algebra_simps)
    have u0: "2 * (c + n) \<le> (2::int) ^ 53" using cn by simp
    have "(c div n + 1) * 2 ^ j \<le> (c div n + 1) * (2 * n)"
      using j(2) q0 by (intro mult_left_mono) simp_all
    from this t0 have "(c div n + 1) * 2 ^ j \<le> 2 * (c + n)" by (rule order_trans)
    from this u0 have b: "(c div n + 1) * 2 ^ j \<le> 2 ^ 53" by (rule order_trans)
    have "(2::int) ^ j \<le> (c div n + 1) * 2 ^ j" using q0 by (simp add: algebra_simps)
    from this b have "(2::int) ^ j \<le> 2 ^ 53" by (rule order_trans)
    then have "j \<le> 1074" by (rule exponent_small)
    with b obtain q where q: "int_truediv c n = Inr q"
      "of_int (c div n + 1) - 1 + 1 / 2 ^ j \<le> q" "q \<le> of_int (c div n + 1) - 1 / 2 ^ j"
      using int_truediv_inexact [of c n j] c n False j(1) by auto
    from q(2,3) have "\<lceil>q\<rceil> = c div n + 1" by (rule ceiling_between)
    with q(1) False show ?thesis by (simp add: N_def)
  qed
  \<comment> \<open>the second division and the subtraction\<close>
  have g0: "0 \<le> d div N" using d0 N1 by (simp add: pos_imp_zdiv_nonneg_iff)
  have gd: "d div N \<le> d" using int_div_le_self [of d N] d0 N1 by simp
  define p where "p = n - d div N"
  have p1: "1 \<le> p" and pn: "p \<le> n" using gd dn g0 by (simp_all add: p_def)
  have s3: "int_to_float n = Inr (of_int n)" using n by (intro int_to_float_exact) simp_all
  have s24: "\<exists>q2 r. int_truediv d N = Inr q2 \<and> float_sub (of_int n) q2 = Inr r \<and> \<lceil>r\<rceil> = p"
  proof (cases "N dvd d")
    case True
    have "d div N \<le> 2 ^ 53" using gd dn n(2) by simp
    then have a: "int_truediv d N = Inr (of_int (d div N))"
      using d0 N1 True by (intro int_truediv_exact) simp_all
    have "p \<le> 2 ^ 53" using pn n(2) by simp
    then have "float_sub (of_int n) (of_int (d div N)) = Inr (of_int p)"
      using p1 by (intro float_sub_exact) (simp_all add: p_def)
    with a show ?thesis by simp
  next
    case False
    from power_two_cover [of N] N1 obtain j where j: "N \<le> 2 ^ j" "2 ^ j < 2 * N" by auto
    have dm: "d = N * (d div N) + d mod N" by simp
    have m: "0 \<le> d mod N" "d mod N < N" using N1 by simp_all
    define g where "g = N * (d div N)"
    have gle: "g \<le> d" and glt: "d < g + N" using dm m unfolding g_def by linarith+
    have "(d div N + 1) * (2 * N) = 2 * (g + N)" by (simp add: g_def algebra_simps)
    also have "\<dots> \<le> 2 * (d + N)" using gle by simp
    also have "\<dots> \<le> 2 * (n + c)" using dn Nc by simp
    finally have t: "(d div N + 1) * (2 * N) \<le> 2 * (n + c)" .
    have u: "2 * (n + c) \<le> (2::int) ^ 53" using cn by simp
    have "(d div N + 1) * 2 ^ j \<le> (d div N + 1) * (2 * N)"
      using j(2) g0 by (intro mult_left_mono) simp_all
    from this t have "(d div N + 1) * 2 ^ j \<le> 2 * (n + c)" by (rule order_trans)
    from this u have b: "(d div N + 1) * 2 ^ j \<le> 2 ^ 53" by (rule order_trans)
    have "(2::int) ^ j \<le> (d div N + 1) * 2 ^ j" using g0 by (simp add: algebra_simps)
    from this b have "(2::int) ^ j \<le> 2 ^ 53" by (rule order_trans)
    then have jj: "j \<le> 1074" by (rule exponent_small)
    with b obtain q2 where q2: "int_truediv d N = Inr q2"
      "of_int (d div N + 1) - 1 + 1 / 2 ^ j \<le> q2" "q2 \<le> of_int (d div N + 1) - 1 / 2 ^ j"
      using int_truediv_inexact [of d N j] d0 N1 False j(1) by auto
    have lo: "of_int p - 1 + 1 / 2 ^ j \<le> of_int n - q2" using q2(3) by (simp add: p_def)
    have hi: "of_int n - q2 \<le> of_int p - 1 / 2 ^ j" using q2(2) by (simp add: p_def)
    have "p * (2 * N) = 2 * (d + c - g)" by (simp add: p_def g_def d_def algebra_simps)
    also have "\<dots> \<le> 2 * (c + N)" using glt by simp
    also have "\<dots> \<le> 4 * c" using Nc by simp
    finally have t': "p * (2 * N) \<le> 4 * c" .
    have u': "4 * c \<le> (2::int) ^ 53" using c(2) by simp
    have "p * 2 ^ j \<le> p * (2 * N)" using j(2) p1 by (intro mult_left_mono) simp_all
    from this t' have "p * 2 ^ j \<le> 4 * c" by (rule order_trans)
    from this u' have "p * 2 ^ j \<le> 2 ^ 53" by (rule order_trans)
    then obtain r where "float_sub (of_int n) q2 = Inr r" "\<lceil>r\<rceil> = p"
      using float_sub_inexact [OF lo hi p1 _ jj] by auto
    with q2(1) show ?thesis by blast
  qed
  from s1 obtain q where q: "int_truediv c n = Inr q" "\<lceil>q\<rceil> = N" by blast
  from s24 obtain q2 r where r: "int_truediv d N = Inr q2" "float_sub (of_int n) q2 = Inr r" "\<lceil>r\<rceil> = p"
    by blast
  show ?thesis
    using q r s3 by (simp add: calculate_node_distribution_def d_def p_def)
qed

section \<open>Evaluation beyond the precision of a double\<close>

lemma round_binary64_tie_2_53: "round_binary64 9007199254740993 = 9007199254740992"
  using round_binary64_binade [of 53 9007199254740993] by (simp add: round_half_even_def Let_def)

lemma round_binary64_2_53: "round_binary64 9007199254740992 = 9007199254740992"
  using round_binary64_of_int [of 9007199254740992] by simp

lemma round_binary64_one: "round_binary64 1 = 1"
  using round_binary64_of_int [of 1] by simp

lemma round_binary64_small_quotient:
  "round_binary64 (1 / 9007199254740993) = 9007199254740991 / 81129638414606681695789005144064"
  using round_binary64_binade [of "- 54" "1 / 9007199254740993"]
  by (simp add: round_half_even_def Let_def)

lemma finite_binary64_2_53: "finite_binary64 9007199254740992"
  using finite_binary64_small [of 9007199254740992] by simp

lemma calculate_node_distribution_one_of_many:
  "calculate_node_distribution 1 9007199254740993 = Inr (1, 0)"
proof -
  have a: "int_truediv 1 9007199254740993 =
      Inr (9007199254740991 / 81129638414606681695789005144064)"
    using finite_binary64_small [of "9007199254740991 / 81129638414606681695789005144064"]
    by (simp add: int_truediv_def round_binary64_small_quotient)
  have b: "int_truediv 9007199254740992 1 = Inr 9007199254740992"
    by (simp add: int_truediv_def round_binary64_2_53 finite_binary64_2_53)
  have c: "int_to_float 9007199254740993 = Inr 9007199254740992"
    by (simp add: int_to_float_def round_binary64_tie_2_53 finite_binary64_2_53)
  have d: "float_sub 9007199254740992 9007199254740992 = Inr 0"
    by (simp add: float_sub_def round_binary64_def finite_binary64_def)
  show ?thesis by (simp add: calculate_node_distribution_def a b c d)
qed

lemma calculate_node_distribution_equal_large:
  "calculate_node_distribution 9007199254740993 9007199254740993 = Inr (1, 9007199254740992)"
proof -
  have a: "int_truediv 9007199254740993 9007199254740993 = Inr 1"
    using finite_binary64_small [of 1] by (simp add: int_truediv_def round_binary64_one)
  have b: "int_truediv 0 1 = Inr 0"
    by (simp add: int_truediv_def round_binary64_def finite_binary64_def)
  have c: "int_to_float 9007199254740993 = Inr 9007199254740992"
    by (simp add: int_to_float_def round_binary64_tie_2_53 finite_binary64_2_53)
  have d: "float_sub 9007199254740992 0 = Inr 9007199254740992"
    by (simp add: float_sub_def round_binary64_2_53 finite_binary64_2_53)
  show ?thesis by (simp add: calculate_node_distribution_def a b c d)
qed

lemma round_binary64_minus: "round_binary64 (- x) = - round_binary64 x"
  by (simp add: round_binary64_def Let_def)

lemma round_binary64_above_one:
  "round_binary64 (9007199254740993 / 9007199254740992) = 1"
  using round_binary64_binade [of 0 "9007199254740993 / 9007199254740992"]
  by (simp add: round_half_even_def Let_def)

lemma round_binary64_2_m53:
  "round_binary64 (1 / 9007199254740992) = 1 / 9007199254740992"
  using round_binary64_exact [of 1 "- 53"] by (simp add: power_int_minus)

lemma calculate_node_distribution_many_of_one:
  "calculate_node_distribution 9007199254740993 1 = Inr (9007199254740992, 1)"
proof -
  have a: "int_truediv 9007199254740993 1 = Inr 9007199254740992"
    by (simp add: int_truediv_def round_binary64_tie_2_53 finite_binary64_2_53)
  have "round_binary64 (- (1 / 9007199254740992)) = - (1 / 9007199254740992)"
    by (simp only: round_binary64_minus round_binary64_2_m53)
  then have b: "int_truediv (- 1) 9007199254740992 = Inr (- (1 / 9007199254740992))"
    by (simp add: int_truediv_def finite_binary64_def)
  have c: "int_to_float 1 = Inr 1"
    using finite_binary64_small [of 1] by (simp add: int_to_float_def round_binary64_one)
  have d: "float_sub 1 (- (1 / 9007199254740992)) = Inr 1"
    using finite_binary64_small [of 1] by (simp add: float_sub_def round_binary64_above_one)
  show ?thesis by (simp add: calculate_node_distribution_def a b c d)
qed

lemma ceiling_quotient:
  assumes "0 < (n::int)"
  shows "\<lceil>(of_int c :: real) / of_int n\<rceil> = (if n dvd c then c div n else c div n + 1)"
proof -
  have "\<lceil>(of_int c :: real) / of_int n\<rceil> = - (- c div n)" by (rule ceiling_divide_eq_div)
  also have "\<dots> = (if n dvd c then c div n else c div n + 1)"
    using assms by (simp add: zdiv_zminus1_eq_if dvd_eq_mod_eq_0)
  finally show ?thesis .
qed

lemma ceiling_int_minus_quotient:
  "\<lceil>(of_int n :: real) - of_int d / of_int m\<rceil> = n - d div m"
proof -
  have "\<lceil>(of_int n :: real) - of_int d / of_int m\<rceil> = - \<lfloor>of_int d / of_int m - (of_int n :: real)\<rfloor>"
    by (simp add: ceiling_def)
  also have "\<dots> = - (\<lfloor>(of_int d :: real) / of_int m\<rfloor> - n)" by (simp only: floor_diff_of_int)
  also have "\<dots> = n - d div m" by (simp add: floor_divide_of_int_eq)
  finally show ?thesis .
qed

lemma allocate_spec_eq:
  fixes c n :: int
  assumes "0 < n"
  defines "N \<equiv> (if n dvd c then c div n else c div n + 1)"
  shows "allocate_spec c n = (N, n - (N * n - c) div N)"
proof -
  have "\<lceil>(of_int c :: real) / of_int n\<rceil> = N"
    using ceiling_quotient [OF assms(1), of c] by (simp add: N_def)
  moreover have "\<lceil>(of_int n :: real) - (of_int (N * n) - of_int c) / of_int N\<rceil>
      = n - (N * n - c) div N"
    using ceiling_int_minus_quotient [of n "N * n - c" N] by simp
  ultimately show ?thesis by (simp add: allocate_spec_def Let_def)
qed

section \<open>Properties of the string functions\<close>

lemma py_index_first: "0 < length xs \<Longrightarrow> py_index xs 0 = Inr (xs ! 0)"
  by (simp add: py_index_def)

lemma py_index_second: "1 < length xs \<Longrightarrow> py_index xs 1 = Inr (xs ! 1)"
  by (simp add: py_index_def)

lemma py_index_last: "0 < length xs \<Longrightarrow> py_index xs (- 1) = Inr (last xs)"
proof -
  assume "0 < length xs"
  then have ne: "xs \<noteq> []" by auto
  then have "last xs = xs ! (length xs - 1)" by (rule last_conv_nth)
  moreover have "nat (int (length xs) + - 1) = length xs - 1" by simp
  moreover have "- int (length xs) \<le> - 1" using ne by (cases xs) simp_all
  ultimately show ?thesis by (simp add: py_index_def)
qed

lemma split_ws_open:
  "cur \<noteq> [] \<Longrightarrow> \<exists>rest. split_ws cur s = (cur @ takeWhile (\<lambda>c. \<not> is_space c) s) # rest"
proof (induction s arbitrary: cur)
  case Nil
  then show ?case by simp
next
  case (Cons c cs)
  show ?case
  proof (cases "is_space c")
    case True
    with Cons.prems show ?thesis by simp
  next
    case False
    have "cur @ [c] \<noteq> []" by simp
    from Cons.IH [OF this] False show ?thesis by simp
  qed
qed

lemma split_ws_first:
  "\<exists>c \<in> set s. \<not> is_space c \<Longrightarrow> \<exists>rest. split_ws [] s = first_token s # rest"
proof (induction s)
  case Nil
  then show ?case by simp
next
  case (Cons c cs)
  show ?case
  proof (cases "is_space c")
    case True
    with Cons show ?thesis by (simp add: first_token_def)
  next
    case False
    then show ?thesis using split_ws_open [of "[c]" cs] by (simp add: first_token_def)
  qed
qed

lemma py_index_head: "py_index (x # xs) 0 = Inr x"
  by (simp add: py_index_def)

lemma re_match_hex_plain:
  assumes "\<not> ends_with_newline s"
  shows "re_match_hex n s \<longleftrightarrow> length s = n \<and> list_all is_hex_digit s"
proof
  assume m: "re_match_hex n s"
  have "drop n s \<noteq> [newline]"
  proof
    assume d: "drop n s = [newline]"
    then have "s = take n s @ [newline]" by (metis append_take_drop_id)
    then have "s \<noteq> [] \<and> last s = newline" by (metis last_snoc snoc_eq_iff_butlast)
    with assms show False by (simp add: ends_with_newline_def)
  qed
  with m have d: "drop n s = []" and l: "length (take n s) = n"
    and h: "list_all is_hex_digit (take n s)"
    unfolding re_match_hex_def by blast+
  from d have "take n s = s" by simp
  with l h show "length s = n \<and> list_all is_hex_digit s" by metis
next
  assume "length s = n \<and> list_all is_hex_digit s"
  then show "re_match_hex n s" by (simp add: re_match_hex_def)
qed







lemma str_int_128: "str_int 128 = ''128''"
  by (simp add: str_int_def str_nat.simps digit_char_def)

lemma str_int_1: "str_int 1 = ''1''"
  by (simp add: str_int_def str_nat.simps digit_char_def)

text \<open>The first occurrence of \<open>old\<close> is replaced, and the replacement goes on behind it.\<close>

lemma replace_from_first_occurrence:
  assumes "old \<noteq> []" and "\<not> py_contains old (a @ butlast old)"
  shows "replace_from old new (a @ old @ b) = a @ new @ replace_from old new b"
  using assms(2)
proof (induction a)
  case Nil
  obtain c cs where o: "old = c # cs" using assms(1) by (cases old) auto
  have "prefix old (c # cs @ b)" by (simp add: o)
  then have "replace_from old new (c # cs @ b) = new @ replace_from old new (drop (length old) (c # cs @ b))"
    using assms(1) by simp
  then show ?case by (simp add: o)
next
  case (Cons x a)
  have nc: "\<not> prefix old (x # a @ butlast old)" and rest: "\<not> py_contains old (a @ butlast old)"
    using Cons.prems by simp_all
  have "\<not> prefix old (x # a @ old @ b)"
  proof
    assume p: "prefix old (x # a @ old @ b)"
    have eq: "x # a @ old @ b = (x # a @ butlast old) @ ([last old] @ b)"
      using assms(1) by simp
    have len: "length old \<le> length (x # a @ butlast old)" using assms(1) by simp
    have pre: "prefix (x # a @ butlast old) ((x # a @ butlast old) @ ([last old] @ b))"
      by (rule prefixI) simp
    from p [unfolded eq] pre len have "prefix old (x # a @ butlast old)"
      by (rule prefix_length_prefix)
    with nc show False ..
  qed
  then have "replace_from old new (x # a @ old @ b) = x # replace_from old new (a @ old @ b)"
    by simp
  with Cons.IH [OF rest] show ?case by simp
qed

lemma py_replace_first_occurrence:
  assumes "old \<noteq> []" and "\<not> py_contains old (a @ butlast old)"
  shows "py_replace old new (a @ old @ b) = a @ new @ py_replace old new b"
  using assms replace_from_first_occurrence [OF assms] by (simp add: py_replace_def)

section \<open>The node distribution\<close>

text \<open>
  C1 (amended): for positive \<open>n_cores_required\<close> and \<open>tot_cores_per_node\<close> not above
  \<open>2 ^ 51\<close>, \<^verbatim>\<open>_calculate_node_distribution\<close> returns a pair of positive integers
  \<open>(n_nodes_to_request, cores_to_request_per_node)\<close> whose product is at least
  \<open>n_cores_required\<close> and whose second component is at most \<open>tot_cores_per_node\<close>.
\<close>

theorem calculate_node_distribution_covers:
  assumes "0 < n_cores_required" and "n_cores_required \<le> 2 ^ 51"
    and "0 < tot_cores_per_node" and "tot_cores_per_node \<le> 2 ^ 51"
  shows "\<exists>n_nodes_to_request cores_to_request_per_node.
    calculate_node_distribution n_cores_required tot_cores_per_node
      = Inr (n_nodes_to_request, cores_to_request_per_node)
    \<and> n_cores_required \<le> n_nodes_to_request * cores_to_request_per_node
    \<and> cores_to_request_per_node \<le> tot_cores_per_node
    \<and> 0 < n_nodes_to_request \<and> 0 < cores_to_request_per_node"
proof -
  define N where "N = (if tot_cores_per_node dvd n_cores_required
    then n_cores_required div tot_cores_per_node else n_cores_required div tot_cores_per_node + 1)"
  define d where "d = N * tot_cores_per_node - n_cores_required"
  note facts = ceil_div_facts [OF assms(1) assms(3), folded N_def]
  have N1: "1 \<le> N" and d0: "0 \<le> d" and dn: "d < tot_cores_per_node"
    using facts by (simp_all add: d_def)
  have g0: "0 \<le> d div N" using d0 N1 by (simp add: pos_imp_zdiv_nonneg_iff)
  have gd: "d div N \<le> d" using int_div_le_self [of d N] d0 N1 by simp
  have "d = N * (d div N) + d mod N" by simp
  moreover have "0 \<le> d mod N" using N1 by simp
  ultimately have "N * (d div N) \<le> d" by linarith
  then have cover: "n_cores_required \<le> N * (tot_cores_per_node - d div N)"
    by (simp add: d_def algebra_simps)
  have "calculate_node_distribution n_cores_required tot_cores_per_node
      = Inr (N, tot_cores_per_node - d div N)"
    using calculate_node_distribution_exact [OF assms] by (simp add: N_def d_def)
  with cover g0 gd dn N1 show ?thesis by simp
qed

theorem calculate_node_distribution_covers_witness:
  "(0::int) < 129 \<and> (129::int) \<le> 2 ^ 51 \<and> (0::int) < 128 \<and> (128::int) \<le> 2 ^ 51
   \<and> (\<exists>n_nodes_to_request cores_to_request_per_node.
        calculate_node_distribution 129 128 = Inr (n_nodes_to_request, cores_to_request_per_node)
        \<and> 129 \<le> n_nodes_to_request * cores_to_request_per_node
        \<and> cores_to_request_per_node \<le> 128
        \<and> 0 < n_nodes_to_request \<and> 0 < cores_to_request_per_node)"
proof -
  have h: "(0::int) < 129" "(129::int) \<le> 2 ^ 51" "(0::int) < 128" "(128::int) \<le> 2 ^ 51"
    by simp_all
  from calculate_node_distribution_covers [OF h] h show ?thesis by blast
qed

text \<open>
  C1 as stated fails beyond the precision of a double: one core on a node of
  \<open>2 ^ 53 + 1\<close> cores gives one node with no core, because the node size is rounded
  to \<open>2 ^ 53\<close> before the unused cores are subtracted.
\<close>

theorem calculate_node_distribution_no_core:
  "calculate_node_distribution 1 9007199254740993 = Inr (1, 0)
   \<and> \<not> (1::int) \<le> 1 * 0 \<and> \<not> (0::int) < 0"
  by (simp add: calculate_node_distribution_one_of_many)

text \<open>
  C2 (amended): for positive \<open>cores_required\<close> and \<open>cores_per_node\<close> not above
  \<open>2 ^ 51\<close>, \<^verbatim>\<open>_calculate_node_distribution\<close> returns the pair of the specification's
  formula, read with exact division.
\<close>

theorem calculate_node_distribution_refines_spec:
  assumes "0 < n_cores_required" and "n_cores_required \<le> 2 ^ 51"
    and "0 < tot_cores_per_node" and "tot_cores_per_node \<le> 2 ^ 51"
  shows "calculate_node_distribution n_cores_required tot_cores_per_node
    = Inr (allocate_spec n_cores_required tot_cores_per_node)"
  using calculate_node_distribution_exact [OF assms] allocate_spec_eq [OF assms(3)]
  by simp

theorem calculate_node_distribution_refines_spec_witness:
  "(0::int) < 192 \<and> (192::int) \<le> 2 ^ 51 \<and> (0::int) < 128 \<and> (128::int) \<le> 2 ^ 51
   \<and> calculate_node_distribution 192 128 = Inr (allocate_spec 192 128)
   \<and> allocate_spec 192 128 = (2, 96)"
proof -
  have h: "(0::int) < 192" "(192::int) \<le> 2 ^ 51" "(0::int) < 128" "(128::int) \<le> 2 ^ 51"
    by simp_all
  have "allocate_spec 192 128 = (2, 96)" by (simp add: allocate_spec_def Let_def)
  with calculate_node_distribution_refines_spec [OF h] h show ?thesis by simp
qed

text \<open>
  C2 as stated fails beyond the precision of a double: for \<open>2 ^ 53 + 1\<close> cores on nodes
  of one core the quotient is rounded to \<open>2 ^ 53\<close>, one node short of the exact ceiling.
\<close>

theorem calculate_node_distribution_not_spec:
  "calculate_node_distribution 9007199254740993 1 = Inr (9007199254740992, 1)
   \<and> allocate_spec 9007199254740993 1 = (9007199254740993, 1)"
  by (simp add: calculate_node_distribution_many_of_one allocate_spec_def Let_def)

text \<open>
  C3 (amended): for positive \<open>c \<le> n\<close> with \<open>n\<close> not above \<open>2 ^ 51\<close>,
  \<^verbatim>\<open>_calculate_node_distribution(c, n)\<close> returns exactly \<open>(1, c)\<close>.
\<close>

theorem calculate_node_distribution_single_node:
  assumes "0 < c" and "c \<le> n" and "n \<le> 2 ^ 51"
  shows "calculate_node_distribution c n = Inr (1, c)"
proof -
  have n: "0 < n" and c51: "c \<le> 2 ^ 51" using assms by simp_all
  have N: "(if n dvd c then c div n else c div n + 1) = 1"
  proof (cases "n dvd c")
    case True
    then have "n \<le> c" using assms(1) by (rule zdvd_imp_le)
    with assms(2) have "c = n" by simp
    with n show ?thesis by simp
  next
    case False
    then have "c \<noteq> n" by auto
    with assms(2) have "c < n" by simp
    then have "c div n = 0" using assms(1) by (simp add: div_pos_pos_trivial)
    with False show ?thesis by simp
  qed
  show ?thesis
    using calculate_node_distribution_exact [OF assms(1) c51 n assms(3)] by (simp add: N)
qed

theorem calculate_node_distribution_single_node_witness:
  "(0::int) < 100 \<and> (100::int) \<le> 128 \<and> (128::int) \<le> 2 ^ 51
   \<and> calculate_node_distribution 100 128 = Inr (1, 100)"
proof -
  have h: "(0::int) < 100" "(100::int) \<le> 128" "(128::int) \<le> 2 ^ 51" by simp_all
  from calculate_node_distribution_single_node [OF h] h show ?thesis by simp
qed

text \<open>
  C3 as stated fails beyond the precision of a double: \<open>2 ^ 53 + 1\<close> cores on a node of
  \<open>2 ^ 53 + 1\<close> cores give \<open>(1, 2 ^ 53)\<close>, one core short.
\<close>

theorem calculate_node_distribution_one_short:
  "(0::int) < 9007199254740993 \<and> (9007199254740993::int) \<le> 9007199254740993
   \<and> calculate_node_distribution 9007199254740993 9007199254740993
       = Inr (1, 9007199254740992)
   \<and> Inr (1, 9007199254740992) \<noteq> (Inr (1, 9007199254740993) :: py_error + int \<times> int)"
  by (simp add: calculate_node_distribution_equal_large)

text \<open>
  C4: \<^verbatim>\<open>_calculate_node_distribution\<close> returns \<open>(2, 96)\<close> on \<open>(192, 128)\<close>, \<open>(1, 128)\<close> on
  \<open>(128, 128)\<close>, \<open>(2, 65)\<close> on \<open>(129, 128)\<close> and \<open>(2, 128)\<close> on \<open>(256, 128)\<close>.
\<close>

theorem calculate_node_distribution_examples:
  "calculate_node_distribution 192 128 = Inr (2, 96)
   \<and> calculate_node_distribution 128 128 = Inr (1, 128)
   \<and> calculate_node_distribution 129 128 = Inr (2, 65)
   \<and> calculate_node_distribution 256 128 = Inr (2, 128)"
proof -
  have "calculate_node_distribution 192 128 = Inr (2, 96)"
    using calculate_node_distribution_exact [of 192 128] by simp
  moreover have "calculate_node_distribution 128 128 = Inr (1, 128)"
    using calculate_node_distribution_exact [of 128 128] by simp
  moreover have "calculate_node_distribution 129 128 = Inr (2, 65)"
    using calculate_node_distribution_exact [of 129 128] by simp
  moreover have "calculate_node_distribution 256 128 = Inr (2, 128)"
    using calculate_node_distribution_exact [of 256 128] by simp
  ultimately show ?thesis by simp
qed

section \<open>The reference lookup\<close>

text \<open>
  C6 (amended): for a \<open>checkout_target\<close> that does not end in a newline,
  \<^verbatim>\<open>_get_hash_from_checkout_target\<close> raises ValueError exactly when the remote listing is
  empty and the target is not a string of 7 or 40 lowercase hexadecimal digits; when the
  listing holds a character that is not whitespace, the result is its first
  whitespace-separated token; when the listing is empty and the target is such a
  hexadecimal string, the result is the target itself.
\<close>

theorem get_hash_from_checkout_target_cases:
  assumes "\<not> ends_with_newline checkout_target"
  shows "(is_value_error (get_hash_from_checkout_target shell repo_url checkout_target)
        \<longleftrightarrow> stdout (shell (ls_remote_command repo_url checkout_target)) = []
            \<and> \<not> is_hex_hash checkout_target)
    \<and> ((\<exists>c \<in> set (stdout (shell (ls_remote_command repo_url checkout_target))). \<not> is_space c) \<longrightarrow>
        get_hash_from_checkout_target shell repo_url checkout_target =
          Inr (first_token (stdout (shell (ls_remote_command repo_url checkout_target)))))
    \<and> (stdout (shell (ls_remote_command repo_url checkout_target)) = []
        \<and> is_hex_hash checkout_target \<longrightarrow>
        get_hash_from_checkout_target shell repo_url checkout_target = Inr checkout_target)"
proof -
  define listing where "listing = stdout (shell (ls_remote_command repo_url checkout_target))"
  have hex: "(re_match_hex 7 checkout_target \<or> re_match_hex 40 checkout_target)
      \<longleftrightarrow> is_hex_hash checkout_target"
    using re_match_hex_plain [OF assms] by (auto simp: is_hex_hash_def)
  have idx: "\<not> is_value_error (py_index (py_split listing) 0)"
    by (simp add: py_index_def is_value_error_def)
  have a: "is_value_error (get_hash_from_checkout_target shell repo_url checkout_target)
        \<longleftrightarrow> listing = [] \<and> \<not> is_hex_hash checkout_target"
    using hex idx
    by (simp add: get_hash_from_checkout_target_def Let_def listing_def [symmetric]
        is_value_error_def invalid_reference_def)
  have b: "get_hash_from_checkout_target shell repo_url checkout_target = Inr (first_token listing)"
    if "\<exists>c \<in> set listing. \<not> is_space c"
  proof -
    from that have ne: "listing \<noteq> []" by auto
    from split_ws_first [OF that] obtain rest where "py_split listing = first_token listing # rest"
      by (auto simp: py_split_def)
    with ne show ?thesis
      by (simp add: get_hash_from_checkout_target_def Let_def listing_def [symmetric] py_index_head)
  qed
  have c: "get_hash_from_checkout_target shell repo_url checkout_target = Inr checkout_target"
    if "listing = [] \<and> is_hex_hash checkout_target"
    using that hex
    by (simp add: get_hash_from_checkout_target_def Let_def listing_def [symmetric])
  from a b c show ?thesis unfolding listing_def by blast
qed

theorem get_hash_from_checkout_target_cases_witness:
  "\<not> ends_with_newline ''main''
   \<and> is_value_error (get_hash_from_checkout_target no_remote ''url'' ''main'')
   \<and> get_hash_from_checkout_target main_remote ''url'' ''main'' = Inr ''12ab''
   \<and> \<not> ends_with_newline ''abcdef0''
   \<and> get_hash_from_checkout_target no_remote ''url'' ''abcdef0'' = Inr ''abcdef0''"
proof -
  have h1: "\<not> ends_with_newline ''main''" by (simp add: ends_with_newline_def newline_def)
  have h2: "\<not> ends_with_newline ''abcdef0''" by (simp add: ends_with_newline_def newline_def)
  have "is_value_error (get_hash_from_checkout_target no_remote ''url'' ''main'')"
    using get_hash_from_checkout_target_cases [OF h1, of no_remote "''url''"]
    by (simp add: no_remote_def is_hex_hash_def)
  moreover have "get_hash_from_checkout_target main_remote ''url'' ''main'' = Inr ''12ab''"
    using get_hash_from_checkout_target_cases [OF h1, of main_remote "''url''"]
    by (simp add: main_remote_def first_token_def is_space_def newline_def)
  moreover have "get_hash_from_checkout_target no_remote ''url'' ''abcdef0'' = Inr ''abcdef0''"
    using get_hash_from_checkout_target_cases [OF h2, of no_remote "''url''"]
    by (simp add: no_remote_def is_hex_hash_def is_hex_digit_def)
  ultimately show ?thesis using h1 h2 by simp
qed

text \<open>
  C6 as stated fails: a listing that is not empty but holds only whitespace has no
  token, and the lookup of the first one raises IndexError.
\<close>

theorem get_hash_from_checkout_target_blank_listing:
  "stdout (blank_remote (ls_remote_command ''url'' ''main'')) \<noteq> []
   \<and> get_hash_from_checkout_target blank_remote ''url'' ''main'' = Inl IndexError"
  by (simp add: get_hash_from_checkout_target_def blank_remote_def Let_def py_split_def
      is_space_def py_index_def)

text \<open>
  C9: the check for a hash accepts only strings of exactly 7 or exactly 40 lowercase
  hexadecimal digits. The code departs from it: seven digits followed by a newline, a
  string of length 8, pass the check, and with an empty listing the target is returned
  where ValueError is due.
\<close>

theorem get_hash_from_checkout_target_trailing_newline:
  "length (''abcdef0'' @ [newline]) = 8
   \<and> get_hash_from_checkout_target no_remote ''url'' (''abcdef0'' @ [newline])
       = Inr (''abcdef0'' @ [newline])"
  by (simp add: get_hash_from_checkout_target_def no_remote_def Let_def re_match_hex_def
      is_hex_digit_def)

section \<open>Clone and checkout\<close>

text \<open>
  C7: \<^verbatim>\<open>_clone_and_checkout\<close> raises exactly when the clone or the checkout returns a
  nonzero exit status; the error carries that exit code and the captured error text;
  after a failed clone the checkout is not run.
\<close>

theorem clone_and_checkout_errors:
  "(isl (fst (clone_and_checkout shell source_repo local_path checkout_target w))
      \<longleftrightarrow> (returncode (shell (clone_command source_repo local_path)) \<noteq> 0
           \<or> returncode (shell (checkout_command local_path checkout_target)) \<noteq> 0))
   \<and> (returncode (shell (clone_command source_repo local_path)) \<noteq> 0 \<longrightarrow>
        clone_and_checkout shell source_repo local_path checkout_target w =
          (Inl (RuntimeError (''Error ''
             @ str_int (returncode (shell (clone_command source_repo local_path)))
             @ '' when cloning repository '' @ source_repo @ '' to '' @ local_path
             @ ''. Error messages: '' @ [newline]
             @ stderr (shell (clone_command source_repo local_path)))),
           w\<lparr>invoked := invoked w @ [clone_command source_repo local_path]\<rparr>))
   \<and> (returncode (shell (clone_command source_repo local_path)) = 0
        \<and> returncode (shell (checkout_command local_path checkout_target)) \<noteq> 0 \<longrightarrow>
        fst (clone_and_checkout shell source_repo local_path checkout_target w) =
          Inl (RuntimeError (''Error ''
             @ str_int (returncode (shell (checkout_command local_path checkout_target)))
             @ '' when checking out '' @ checkout_target @ '' in git repository '' @ local_path
             @ ''. Error messages: '' @ [newline]
             @ stderr (shell (checkout_command local_path checkout_target)))))"
  by (simp add: clone_and_checkout_def clone_error_def checkout_error_def Let_def)

theorem clone_and_checkout_errors_witness:
  "clone_and_checkout failing_clone ''url'' ''dir'' ''main'' \<lparr>invoked = [], printed = []\<rparr> =
     (Inl (RuntimeError (''Error 128 when cloning repository url to dir. Error messages: ''
        @ [newline] @ ''fatal'')),
      \<lparr>invoked = [\<lparr>command = ''git clone url dir'', cwd = None\<rparr>], printed = []\<rparr>)
   \<and> fst (clone_and_checkout failing_checkout ''url'' ''dir'' ''main'' \<lparr>invoked = [], printed = []\<rparr>) =
     Inl (RuntimeError (''Error 1 when checking out main in git repository dir. Error messages: ''
        @ [newline] @ ''error''))"
proof -
  have "clone_and_checkout failing_clone ''url'' ''dir'' ''main'' \<lparr>invoked = [], printed = []\<rparr> =
     (Inl (RuntimeError (''Error 128 when cloning repository url to dir. Error messages: ''
        @ [newline] @ ''fatal'')),
      \<lparr>invoked = [\<lparr>command = ''git clone url dir'', cwd = None\<rparr>], printed = []\<rparr>)"
    using clone_and_checkout_errors [of failing_clone "''url''" "''dir''" "''main''"
        "\<lparr>invoked = [], printed = []\<rparr>"]
    by (simp add: failing_clone_def clone_command_def str_int_128)
  moreover have "fst (clone_and_checkout failing_checkout ''url'' ''dir'' ''main'' \<lparr>invoked = [], printed = []\<rparr>) =
     Inl (RuntimeError (''Error 1 when checking out main in git repository dir. Error messages: ''
        @ [newline] @ ''error''))"
    using clone_and_checkout_errors [of failing_checkout "''url''" "''dir''" "''main''"
        "\<lparr>invoked = [], printed = []\<rparr>"]
    by (simp add: failing_checkout_def clone_command_def checkout_command_def str_int_1)
  ultimately show ?thesis by simp
qed

section \<open>The concise listing\<close>

text \<open>
  For a positive \<open>item_threshold\<close>, the listing of a list longer than the threshold holds
  the first, the second and the last item around an ellipsis, followed, when
  \<open>show_item_count\<close> holds, by the count of the items; a list within the threshold is
  listed in full when \<open>items_are_strs\<close> holds or every item is a \<^verbatim>\<open>str\<close>, and raises
  TypeError otherwise.
\<close>

lemma list_to_concise_str_shape:
  assumes "0 < item_threshold"
  shows "(int (length input_list) \<le> item_threshold
        \<and> (items_are_strs \<or> list_all is_py_str input_list) \<longrightarrow>
      list_to_concise_str repr input_list item_threshold pad items_are_strs show_item_count =
        Inr (''['' @ py_join ('','' @ [newline] @ replicate (nat pad) CHR '' '')
               (map (\<lambda>item. if items_are_strs then py_repr repr item else py_format item)
                  input_list) @ '']''))
    \<and> (int (length input_list) \<le> item_threshold
        \<and> \<not> items_are_strs \<and> \<not> list_all is_py_str input_list \<longrightarrow>
      list_to_concise_str repr input_list item_threshold pad items_are_strs show_item_count =
        Inl TypeError)
    \<and> (item_threshold < int (length input_list) \<longrightarrow>
      list_to_concise_str repr input_list item_threshold pad items_are_strs show_item_count =
        Inr (''[''
             @ (if items_are_strs then py_repr repr (input_list ! 0)
                else py_format (input_list ! 0)) @ '',''
             @ [newline] @ replicate (nat pad) CHR '' ''
             @ (if items_are_strs then py_repr repr (input_list ! 1)
                else py_format (input_list ! 1)) @ '',''
             @ [newline] @ replicate (nat pad) CHR '' '' @ ''   ...''
             @ [newline] @ replicate (nat pad) CHR '' ''
             @ (if items_are_strs then py_repr repr (last input_list)
                else py_format (last input_list)) @ ''] ''
             @ (if show_item_count
                then ''<'' @ str_int (int (length input_list)) @ '' items>'' else [])))"
proof (intro conjI impI)
  assume a: "int (length input_list) \<le> item_threshold
      \<and> (items_are_strs \<or> list_all is_py_str input_list)"
  have all: "list_all is_py_str
      (map (\<lambda>item. if items_are_strs then PyStr (py_repr repr item) else item) input_list)"
    using a by (auto simp: list_all_iff)
  have fmt: "map (py_format \<circ> (\<lambda>item. if items_are_strs then PyStr (py_repr repr item) else item))
        input_list
      = map (\<lambda>item. if items_are_strs then py_repr repr item else py_format item) input_list"
    by (rule map_cong) simp_all
  show "list_to_concise_str repr input_list item_threshold pad items_are_strs show_item_count =
        Inr (''['' @ py_join ('','' @ [newline] @ replicate (nat pad) CHR '' '')
               (map (\<lambda>item. if items_are_strs then py_repr repr item else py_format item)
                  input_list) @ '']'')"
    using a all by (simp add: list_to_concise_str_def Let_def join_values_def fmt)
next
  assume b: "int (length input_list) \<le> item_threshold
      \<and> \<not> items_are_strs \<and> \<not> list_all is_py_str input_list"
  then show "list_to_concise_str repr input_list item_threshold pad items_are_strs
      show_item_count = Inl TypeError"
    by (simp add: list_to_concise_str_def Let_def join_values_def)
next
  assume long: "item_threshold < int (length input_list)"
  with assms have len: "1 < length input_list" by simp
  then have "0 < length input_list" by linarith
  note idx = py_index_first [OF this] py_index_second [OF len] py_index_last [OF this]
  show "list_to_concise_str repr input_list item_threshold pad items_are_strs show_item_count =
        Inr (''[''
             @ (if items_are_strs then py_repr repr (input_list ! 0)
                else py_format (input_list ! 0)) @ '',''
             @ [newline] @ replicate (nat pad) CHR '' ''
             @ (if items_are_strs then py_repr repr (input_list ! 1)
                else py_format (input_list ! 1)) @ '',''
             @ [newline] @ replicate (nat pad) CHR '' '' @ ''   ...''
             @ [newline] @ replicate (nat pad) CHR '' ''
             @ (if items_are_strs then py_repr repr (last input_list)
                else py_format (last input_list)) @ ''] ''
             @ (if show_item_count
                then ''<'' @ str_int (int (length input_list)) @ '' items>'' else []))"
    using long by (simp add: list_to_concise_str_def Let_def idx)
qed

text \<open>
  C8: for every list, \<^verbatim>\<open>_list_to_concise_str\<close> returns the bracketed, comma-joined
  listing of all items when the list is within \<open>item_threshold\<close>, and the first, second
  and last item around an ellipsis otherwise. The code departs from it: with
  \<open>items_are_strs\<close> false, the list \<open>[1, 2, 3]\<close> of ints raises TypeError in the join of
  the short branch, where the long branch formats the same items, as on
  \<open>[1, 2, 3, 4, 5]\<close>.
\<close>

theorem list_to_concise_str_type_error:
  "list_to_concise_str quote_repr [PyInt 1, PyInt 2, PyInt 3] 4 16 False True = Inl TypeError
   \<and> list_to_concise_str quote_repr [PyInt 1, PyInt 2, PyInt 3, PyInt 4, PyInt 5] 4 16 False True =
       Inr (''[1,'' @ [newline] @ replicate 16 CHR '' '' @ ''2,''
            @ [newline] @ replicate 16 CHR '' '' @ ''   ...''
            @ [newline] @ replicate 16 CHR '' '' @ ''5] <5 items>'')"
proof -
  have d: "str_int 1 = ''1''" "str_int 2 = ''2''" "str_int 5 = ''5''"
    by (simp_all add: str_int_def str_nat.simps digit_char_def)
  have "list_to_concise_str quote_repr [PyInt 1, PyInt 2, PyInt 3] 4 16 False True = Inl TypeError"
    by (simp add: list_to_concise_str_def Let_def join_values_def)
  moreover have "list_to_concise_str quote_repr [PyInt 1, PyInt 2, PyInt 3, PyInt 4, PyInt 5]
      4 16 False True =
       Inr (''[1,'' @ [newline] @ replicate 16 CHR '' '' @ ''2,''
            @ [newline] @ replicate 16 CHR '' '' @ ''   ...''
            @ [newline] @ replicate 16 CHR '' '' @ ''5] <5 items>'')"
    by (simp add: list_to_concise_str_def Let_def py_index_def d)
  ultimately show ?thesis by simp
qed

section \<open>The replacement of text\<close>



end
